theory Spec2Isabelle
  imports Main "HOL-Library.AList" "HOL-Library.Sublist"
begin

section \<open>The reachability monitor: embedding of \<open>SDMonitor.check_instances\<close>\<close>

text \<open>
  The source is \<^verbatim>\<open>src/reachability-monitor.py\<close>. Its one algorithmic method,
  \<^verbatim>\<open>check_instances\<close>, walks a list of instance dictionaries, probes each hidden
  service through a SOCKS opener, and talks to the Tor controller. The opener and the
  controller are libraries outside the repository, so they enter the model as an
  environment: a record of functions over an abstract world \<open>'w\<close>, each returning either
  the exception the call raises or its value, together with the next world.
\<close>

subsection \<open>Exceptions\<close>

text \<open>
  A value of \<open>exn\<close> stands for a raised exception, named by the class an \<^verbatim>\<open>except\<close>
  clause of the source would match it against. \<open>OtherError\<close> covers everything the source
  never names (a socket timeout, a controller I/O failure, a decoding error).
\<close>

datatype exn =
    SOCKS5Error
  | GeneralProxyError
  | URLError
  | DescriptorUnavailable
  | AttributeError
  | TypeError
  | IndexError
  | KeyError
  | OtherError string

subsection \<open>Data\<close>

text \<open>
  A circuit as the controller reports it; the fields are the attributes the source reads
  (\<^verbatim>\<open>circuit.id\<close> is \<open>circ_id\<close> here). An attribute that stem leaves at \<^verbatim>\<open>None\<close>
  is \<open>None\<close>.
\<close>

type_synonym hop = "string \<times> string option"

record circuit =
  circ_id :: string
  purpose :: "string option"
  path :: "hop list"
  hs_state :: "string option"
  reason :: "string option"
  remote_reason :: "string option"

text \<open>
  Python dictionaries keep insertion order and \<^verbatim>\<open>d[k] = v\<close> overwrites in place or
  appends: this is \<^const>\<open>AList.update\<close> on an association list, with \<^const>\<open>map_of\<close>
  as the lookup.
\<close>

datatype attr = Hops "hop list" | Text "string option"

type_synonym snapshot = "(string \<times> attr) list"

datatype pyval = Str string | Snaps "snapshot list"

type_synonym instance_record = "(string \<times> pyval) list"

text \<open>\<^verbatim>\<open>dict(path=circuit.path, reason=circuit.reason, remote_reason=circuit.remote_reason)\<close>\<close>

definition intro_snapshot :: "circuit \<Rightarrow> snapshot" where
  "intro_snapshot c =
     [(''path'', Hops (path c)),
      (''reason'', Text (reason c)),
      (''remote_reason'', Text (remote_reason c))]"

text \<open>\<^verbatim>\<open>dict(path=circuit.path, state=circuit.hs_state, reason=..., remote_reason=...)\<close>\<close>

definition rend_snapshot :: "circuit \<Rightarrow> snapshot" where
  "rend_snapshot c =
     [(''path'', Hops (path c)),
      (''state'', Text (hs_state c)),
      (''reason'', Text (reason c)),
      (''remote_reason'', Text (remote_reason c))]"

subsection \<open>The environment and the log of effects\<close>

text \<open>
  \<open>opener_open url timeout\<close> is the whole expression
  \<^verbatim>\<open>opener.open(url, timeout=timeout).read().decode()\<close>: the decoded body or the
  exception raised on the way. \<open>get_hidden_service_descriptor a\<close> is
  \<^verbatim>\<open>self.controller.get_hidden_service_descriptor(a).introduction_points_content.decode()\<close>.
\<close>

record 'w env =
  opener_open :: "string \<Rightarrow> nat \<Rightarrow> 'w \<Rightarrow> (exn + string) \<times> 'w"
  get_hidden_service_descriptor :: "string \<Rightarrow> 'w \<Rightarrow> (exn + string) \<times> 'w"
  get_circuits :: "'w \<Rightarrow> (exn + circuit list) \<times> 'w"
  close_circuit :: "string \<Rightarrow> 'w \<Rightarrow> (exn + unit) \<times> 'w"

text \<open>
  The log records what the method does, in order: every call it makes on the opener and
  the controller, every \<^verbatim>\<open>print(instance)\<close> with the dictionary as printed, and every
  append to \<^verbatim>\<open>intro_circs\<close> or \<^verbatim>\<open>rend_circs\<close> (tagged with the id of the circuit).
\<close>

datatype event =
    Open_url string nat
  | Get_descriptor string
  | Get_circuits
  | Append_intro string
  | Append_rend string
  | Close_circuit string
  | Print instance_record

type_synonym 'w st = "'w \<times> event list"

text \<open>How a block of the loop body ends: it falls through, hits \<^verbatim>\<open>continue\<close>, or raises.\<close>

datatype flow = Proceed | Continue | Raise exn

subsection \<open>Lines 70--72: the version parser\<close>

definition pattern_literal :: string where
  "pattern_literal = ''Powered by SecureDrop ''"

definition is_version_char :: "char \<Rightarrow> bool" where
  "is_version_char c \<longleftrightarrow> c \<in> set ''0123456789.''"

text \<open>
  The regular expression \<^verbatim>\<open>Powered by SecureDrop [0-9.]+\<close> anchored at the head of
  \<open>s\<close>: the literal, then the longest non-empty run of digits and dots.
\<close>

definition match_at :: "string \<Rightarrow> string option" where
  "match_at s =
     (if take (length pattern_literal) s = pattern_literal
      then (let tok = takeWhile is_version_char (drop (length pattern_literal) s)
            in if tok = [] then None else Some (pattern_literal @ tok))
      else None)"

text \<open>\<^verbatim>\<open>re.search\<close>: the match at the leftmost position that has one; \<open>None\<close> otherwise.\<close>

fun re_search :: "string \<Rightarrow> string option" where
  "re_search [] = None"
| "re_search (c # cs) =
     (case match_at (c # cs) of Some m \<Rightarrow> Some m | None \<Rightarrow> re_search cs)"

text \<open>
  \<^verbatim>\<open>str.split()\<close> without arguments: the maximal runs of non-whitespace characters.
  The whitespace characters listed are the ASCII ones; the parser only splits a matched
  text, which is ASCII.
\<close>

definition is_space :: "char \<Rightarrow> bool" where
  "is_space c \<longleftrightarrow>
     c \<in> set [CHR '' '', CHR 0x09, CHR 0x0A, CHR 0x0B, CHR 0x0C, CHR 0x0D,
              CHR 0x1C, CHR 0x1D, CHR 0x1E, CHR 0x1F]"

fun split_acc :: "string \<Rightarrow> string \<Rightarrow> string list" where
  "split_acc [] w = (if w = [] then [] else [w])"
| "split_acc (c # cs) w =
     (if is_space c
      then (if w = [] then split_acc cs [] else w # split_acc cs [])
      else split_acc cs (w @ [c]))"

definition split_ws :: "string \<Rightarrow> string list" where
  "split_ws s = split_acc s []"

text \<open>\<^verbatim>\<open>xs[-1]\<close> raises \<^verbatim>\<open>IndexError\<close> on an empty list.\<close>

definition py_last :: "'a list \<Rightarrow> exn + 'a" where
  "py_last xs = (if xs = [] then Inl IndexError else Inr (last xs))"

text \<open>
  \<^verbatim>\<open>search(...)\<close> returns \<^verbatim>\<open>None\<close> when nothing matches, and \<^verbatim>\<open>None.group(0)\<close>
  raises \<^verbatim>\<open>AttributeError\<close>. The slice \<^verbatim>\<open>[:-1]\<close> is \<^const>\<open>butlast\<close>.
\<close>

definition parse_version :: "string \<Rightarrow> exn + string" where
  "parse_version response =
     (case re_search response of
        None \<Rightarrow> Inl AttributeError
      | Some version_str \<Rightarrow>
          (case py_last (split_ws version_str) of
             Inl e \<Rightarrow> Inl e
           | Inr tok \<Rightarrow> Inr (butlast tok)))"

subsection \<open>Lines 65--90: the probe and the descriptor diagnosis\<close>

text \<open>The body of the outer \<^verbatim>\<open>try\<close>, for a service address that is a string.\<close>

definition try_body :: "'w env \<Rightarrow> nat \<Rightarrow> string \<Rightarrow> 'w st \<Rightarrow> (exn + string) \<times> 'w st" where
  "try_body env timeout hs_url s =
     (case s of (w, log) \<Rightarrow>
        (case opener_open env (''http://'' @ hs_url) timeout w of
           (r, w1) \<Rightarrow>
             ((case r of Inl e \<Rightarrow> Inl e | Inr response \<Rightarrow> parse_version response),
              (w1, log @ [Open_url (''http://'' @ hs_url) timeout]))))"

text \<open>\<^verbatim>\<open>except (socks.SOCKS5Error, socks.GeneralProxyError, urllib.error.URLError)\<close>\<close>

definition caught :: "exn \<Rightarrow> bool" where
  "caught e \<longleftrightarrow> e = SOCKS5Error \<or> e = GeneralProxyError \<or> e = URLError"

text \<open>
  The handler, lines 75--90. The record is mutated in place, so the assignments made
  before an exception stay on the record that the function hands back.
\<close>

definition diagnose :: "'w env \<Rightarrow> string \<Rightarrow> instance_record \<Rightarrow> 'w st \<Rightarrow> flow \<times> instance_record \<times> 'w st" where
  "diagnose env hs_url inst s =
     (case s of (w, log) \<Rightarrow>
        (let inst1 = AList.update ''version'' (Str ''unreachable'') inst in
         (case get_hidden_service_descriptor env hs_url w of
            (Inr content, w1) \<Rightarrow>
              (Proceed, AList.update ''intro_pts'' (Str content) inst1,
               (w1, log @ [Get_descriptor hs_url]))
          | (Inl e, w1) \<Rightarrow>
              (if e = DescriptorUnavailable
               then (let inst2 = AList.update ''intro_pts'' (Str ''descriptor unavailable'') inst1
                     in (Continue, inst2, (w1, log @ [Get_descriptor hs_url, Print inst2])))
               else (Raise e, inst1, (w1, log @ [Get_descriptor hs_url]))))))"

text \<open>
  \<^verbatim>\<open>instance.get("ths_address")\<close> is \<^verbatim>\<open>None\<close> for a missing key, and
  \<^verbatim>\<open>"http://" + hs_url\<close> raises \<^verbatim>\<open>TypeError\<close> unless \<open>hs_url\<close> is a string; the
  handler does not catch it.
\<close>

definition probe :: "'w env \<Rightarrow> nat \<Rightarrow> instance_record \<Rightarrow> 'w st \<Rightarrow> flow \<times> instance_record \<times> 'w st" where
  "probe env timeout inst s =
     (case map_of inst ''ths_address'' of
        Some (Str hs_url) \<Rightarrow>
          (case try_body env timeout hs_url s of
             (Inr v, s1) \<Rightarrow> (Proceed, AList.update ''version'' (Str v) inst, s1)
           | (Inl e, s1) \<Rightarrow>
               (if caught e then diagnose env hs_url inst s1 else (Raise e, inst, s1)))
      | _ \<Rightarrow> (Raise TypeError, inst, s))"

subsection \<open>Lines 92--108: circuit collection\<close>

definition is_intro :: "circuit \<Rightarrow> bool" where
  "is_intro c \<longleftrightarrow> purpose c = Some ''HS_CLIENT_INTRO''"

definition is_rend :: "circuit \<Rightarrow> bool" where
  "is_rend c \<longleftrightarrow> purpose c = Some ''HS_CLIENT_REND''"

text \<open>What one iteration of the loop over the circuits logs, when it completes.\<close>

definition circuit_events :: "circuit \<Rightarrow> event list" where
  "circuit_events c =
     (if is_intro c then [Append_intro (circ_id c)] else []) @
     (if is_rend c then [Append_rend (circ_id c)] else []) @
     [Close_circuit (circ_id c)]"

fun collect ::
  "'w env \<Rightarrow> circuit list \<Rightarrow> snapshot list \<Rightarrow> snapshot list \<Rightarrow> 'w st
     \<Rightarrow> (exn + snapshot list \<times> snapshot list) \<times> 'w st" where
  "collect env [] intro_circs rend_circs s = (Inr (intro_circs, rend_circs), s)"
| "collect env (c # cs) intro_circs rend_circs s =
     (case s of (w, log) \<Rightarrow>
        (let intro_circs1 = (if is_intro c then intro_circs @ [intro_snapshot c] else intro_circs);
             rend_circs1 = (if is_rend c then rend_circs @ [rend_snapshot c] else rend_circs)
         in (case close_circuit env (circ_id c) w of
               (Inl e, w1) \<Rightarrow> (Inl e, (w1, log @ circuit_events c))
             | (Inr u, w1) \<Rightarrow> collect env cs intro_circs1 rend_circs1 (w1, log @ circuit_events c))))"

definition inspect :: "'w env \<Rightarrow> instance_record \<Rightarrow> 'w st \<Rightarrow> flow \<times> instance_record \<times> 'w st" where
  "inspect env inst s =
     (case s of (w, log) \<Rightarrow>
        (case get_circuits env w of
           (Inl e, w1) \<Rightarrow> (Raise e, inst, (w1, log @ [Get_circuits]))
         | (Inr cs, w1) \<Rightarrow>
             (case collect env cs [] [] (w1, log @ [Get_circuits]) of
                (Inl e, s2) \<Rightarrow> (Raise e, inst, s2)
              | (Inr (intro_circs, rend_circs), s2) \<Rightarrow>
                  (Proceed,
                   AList.update ''rend_circs'' (Snaps rend_circs)
                     (AList.update ''intro_circs'' (Snaps intro_circs) inst),
                   s2))))"

subsection \<open>Lines 110--111: the report\<close>

definition report :: "instance_record \<Rightarrow> 'w st \<Rightarrow> flow \<times> instance_record \<times> 'w st" where
  "report inst s =
     (case s of (w, log) \<Rightarrow>
        (case map_of inst ''version'' of
           None \<Rightarrow> (Raise KeyError, inst, s)
         | Some v \<Rightarrow>
             (if v = Str ''unreachable''
              then (Proceed, inst, (w, log @ [Print inst]))
              else (Proceed, inst, s))))"

subsection \<open>The loop body and the loop\<close>

text \<open>
  One iteration of \<^verbatim>\<open>for instance in instances\<close>. The result is the exception that
  left the body, if any, the record as mutated so far, and the next state.
\<close>

definition check_instance :: "'w env \<Rightarrow> nat \<Rightarrow> instance_record \<Rightarrow> 'w st \<Rightarrow> exn option \<times> instance_record \<times> 'w st" where
  "check_instance env timeout inst s =
     (case probe env timeout inst s of
        (Raise e, inst1, s1) \<Rightarrow> (Some e, inst1, s1)
      | (Continue, inst1, s1) \<Rightarrow> (None, inst1, s1)
      | (Proceed, inst1, s1) \<Rightarrow>
          (case inspect env inst1 s1 of
             (Raise e, inst2, s2) \<Rightarrow> (Some e, inst2, s2)
           | (Continue, inst2, s2) \<Rightarrow> (None, inst2, s2)
           | (Proceed, inst2, s2) \<Rightarrow>
               (case report inst2 s2 of
                  (Raise e, inst3, s3) \<Rightarrow> (Some e, inst3, s3)
                | (_, inst3, s3) \<Rightarrow> (None, inst3, s3))))"

text \<open>
  \<^verbatim>\<open>check_instances\<close>. The list of records is both the argument mutated in place and,
  when no exception escapes (\<open>None\<close>), the value returned; after an exception it is what
  the caller's list holds. The records of the list are taken to be distinct objects, as
  \<^verbatim>\<open>read_directory\<close> builds them.
\<close>

fun check_instances ::
  "'w env \<Rightarrow> nat \<Rightarrow> instance_record list \<Rightarrow> 'w st \<Rightarrow> exn option \<times> instance_record list \<times> 'w st" where
  "check_instances env timeout [] s = (None, [], s)"
| "check_instances env timeout (inst # rest) s =
     (case check_instance env timeout inst s of
        (Some e, inst1, s1) \<Rightarrow> (Some e, inst1 # rest, s1)
      | (None, inst1, s1) \<Rightarrow>
          (case check_instances env timeout rest s1 of
             (r, rest1, s2) \<Rightarrow> (r, inst1 # rest1, s2)))"

text \<open>\<^verbatim>\<open>def check_instances(self, instances, timeout=30)\<close>\<close>

definition default_timeout :: nat where
  "default_timeout = 30"

subsection \<open>Vocabulary of the properties\<close>

text \<open>The keys that \<^verbatim>\<open>check_instances\<close> assigns on a record.\<close>

definition result_keys :: "string set" where
  "result_keys = {''version'', ''intro_pts'', ''intro_circs'', ''rend_circs''}"

text \<open>The circuit ids passed to \<^verbatim>\<open>close_circuit\<close>, in the order of the calls.\<close>

fun closed_ids :: "event list \<Rightarrow> string list" where
  "closed_ids [] = []"
| "closed_ids (Close_circuit cid # es) = cid # closed_ids es"
| "closed_ids (e # es) = closed_ids es"


subsection \<open>A simulated environment for concrete runs\<close>

text \<open>
  The inputs at which the theorems below are instantiated; none of this is in the source.
  The world is the list of live circuits. \<open>pages\<close> answers the probe of a URL and
  \<open>descs\<close> the descriptor fetch of an address; closing a circuit removes it.
\<close>

definition sim_env :: "(string \<Rightarrow> exn + string) \<Rightarrow> (string \<Rightarrow> exn + string) \<Rightarrow> circuit list env" where
  "sim_env pages descs =
     \<lparr>opener_open = (\<lambda>url timeout w. (pages url, w)),
      get_hidden_service_descriptor = (\<lambda>a w. (descs a, w)),
      get_circuits = (\<lambda>w. (Inr w, w)),
      close_circuit = (\<lambda>cid w. (Inr (), filter (\<lambda>c. circ_id c \<noteq> cid) w))\<rparr>"

definition circ_a :: circuit where
  "circ_a = \<lparr>circ_id = ''7'', purpose = Some ''HS_CLIENT_INTRO'',
             path = [(''A1'', Some ''guard''), (''B2'', None)],
             hs_state = Some ''HSCI_CONNECTING'', reason = None, remote_reason = None\<rparr>"

definition circ_b :: circuit where
  "circ_b = \<lparr>circ_id = ''8'', purpose = Some ''HS_CLIENT_REND'',
             path = [(''C3'', Some ''middle'')],
             hs_state = Some ''HSCR_CONNECTING'', reason = Some ''TIMEOUT'', remote_reason = None\<rparr>"

definition circ_c :: circuit where
  "circ_c = \<lparr>circ_id = ''9'', purpose = Some ''GENERAL'',
             path = [], hs_state = None, reason = None, remote_reason = None\<rparr>"

text \<open>
  A record as \<^verbatim>\<open>read_directory\<close> builds it (lines 50--52):
  \<^verbatim>\<open>dict(organization=fields[0], landing_page=fields[1], ths_address=fields[2])\<close>.
\<close>

definition inst_of :: "string \<Rightarrow> instance_record" where
  "inst_of a = [(''organization'', Str ''Org''), (''landing_page'', Str ''https://org.example/tips''),
                (''ths_address'', Str a)]"

text \<open>Every URL answers with \<open>body\<close>.\<close>

definition page_env :: "string \<Rightarrow> circuit list env" where
  "page_env body = sim_env (\<lambda>url. Inr body) (\<lambda>a. Inl DescriptorUnavailable)"

text \<open>Every probe fails with \<open>e\<close>; the descriptor fetch answers \<open>d\<close>.\<close>

definition down_env :: "exn \<Rightarrow> exn + string \<Rightarrow> circuit list env" where
  "down_env e d = sim_env (\<lambda>url. Inl e) (\<lambda>a. d)"

text \<open>The first address serves a well-formed page, every other one a page without the pattern.\<close>

definition two_page_env :: "circuit list env" where
  "two_page_env =
     sim_env (\<lambda>url. if url = ''http://a.onion'' then Inr ''<p>Powered by SecureDrop 1.0.</p>''
                     else Inr ''<html>hello</html>'')
             (\<lambda>a. Inl DescriptorUnavailable)"

text \<open>A reachable service, on a controller where closing the circuit \<open>bad\<close> raises.\<close>

definition brittle_env :: "string \<Rightarrow> circuit list env" where
  "brittle_env bad =
     \<lparr>opener_open = (\<lambda>url timeout w. (Inr ''Powered by SecureDrop 1.0.'', w)),
      get_hidden_service_descriptor = (\<lambda>a w. (Inl DescriptorUnavailable, w)),
      get_circuits = (\<lambda>w. (Inr w, w)),
      close_circuit = (\<lambda>cid w. if cid = bad then (Inl (OtherError ''close failed''), w)
                                else (Inr (), filter (\<lambda>c. circ_id c \<noteq> cid) w))\<rparr>"

section \<open>Properties\<close>

subsection \<open>The version parser\<close>

lemma version_char_not_space: "is_version_char c \<Longrightarrow> \<not> is_space c"
  by (auto simp: is_version_char_def is_space_def)

lemma split_acc_nospace:
  "\<forall>c\<in>set tok. \<not> is_space c \<Longrightarrow> split_acc tok w = (if w @ tok = [] then [] else [w @ tok])"
  by (induction tok arbitrary: w) auto

lemma split_ws_match:
  assumes "tok \<noteq> []" and "\<forall>c\<in>set tok. is_version_char c"
  shows "split_ws (pattern_literal @ tok) = [''Powered'', ''by'', ''SecureDrop'', tok]"
proof -
  have "\<forall>c\<in>set tok. \<not> is_space c"
    using assms(2) version_char_not_space by blast
  then have "split_acc tok [] = [tok]"
    using assms(1) by (simp add: split_acc_nospace)
  then show ?thesis
    by (simp add: split_ws_def pattern_literal_def is_space_def)
qed

lemma match_at_form:
  "match_at s = Some m \<Longrightarrow>
     \<exists>tok. m = pattern_literal @ tok \<and> tok \<noteq> [] \<and> (\<forall>c\<in>set tok. is_version_char c)"
  by (auto simp: match_at_def Let_def split: if_splits dest: set_takeWhileD)

lemma re_search_form:
  "re_search s = Some m \<Longrightarrow>
     \<exists>tok. m = pattern_literal @ tok \<and> tok \<noteq> [] \<and> (\<forall>c\<in>set tok. is_version_char c)"
proof (induction s)
  case Nil then show ?case by simp
next
  case (Cons c cs)
  then show ?case
    by (cases "match_at (c # cs)") (auto dest: match_at_form)
qed

lemma parse_version_match:
  assumes "re_search body = Some (pattern_literal @ tok)"
  shows "parse_version body = Inr (butlast tok)"
proof -
  obtain tok' where t: "pattern_literal @ tok = pattern_literal @ tok'" "tok' \<noteq> []"
      "\<forall>c\<in>set tok'. is_version_char c"
    using re_search_form [OF assms] by blast
  then have "tok' = tok" by simp
  with t have "split_ws (pattern_literal @ tok) = [''Powered'', ''by'', ''SecureDrop'', tok]"
    by (simp add: split_ws_match)
  then show ?thesis
    using assms by (simp add: parse_version_def py_last_def)
qed

lemma parse_version_nomatch: "re_search body = None \<Longrightarrow> parse_version body = Inl AttributeError"
  by (simp add: parse_version_def)

lemma re_search_skip:
  "\<forall>k<length pre. match_at (drop k (pre @ s)) = None \<Longrightarrow> re_search (pre @ s) = re_search s"
proof (induction pre)
  case Nil then show ?case by simp
next
  case (Cons c pre)
  have h0: "match_at ((c # pre) @ s) = None"
    using Cons.prems [rule_format, of 0] by simp
  have "\<forall>k<length pre. match_at (drop k (pre @ s)) = None"
  proof (intro allI impI)
    fix k assume "k < length pre"
    then show "match_at (drop k (pre @ s)) = None"
      using Cons.prems [rule_format, of "Suc k"] by simp
  qed
  then have "re_search (pre @ s) = re_search s" by (rule Cons.IH)
  with h0 show ?case by simp
qed

lemma match_at_here:
  assumes "tok \<noteq> []" and "\<forall>c\<in>set tok. is_version_char c"
    and "post = [] \<or> \<not> is_version_char (hd post)"
  shows "match_at (pattern_literal @ tok @ post) = Some (pattern_literal @ tok)"
proof -
  have "takeWhile is_version_char (tok @ post) = tok"
    using assms(2,3) by (cases post) (auto simp: takeWhile_append2 intro: takeWhile_eq_all_conv[THEN iffD2])
  then show ?thesis
    using assms(1) by (simp add: match_at_def)
qed

lemma re_search_here:
  assumes "tok \<noteq> []" and "\<forall>c\<in>set tok. is_version_char c"
    and "post = [] \<or> \<not> is_version_char (hd post)"
  shows "re_search (pattern_literal @ tok @ post) = Some (pattern_literal @ tok)"
proof -
  have "pattern_literal @ tok @ post \<noteq> []" by (simp add: pattern_literal_def)
  then obtain c cs where e: "pattern_literal @ tok @ post = c # cs"
    by (cases "pattern_literal @ tok @ post") auto
  have "match_at (c # cs) = Some (pattern_literal @ tok)"
    using match_at_here [OF assms] e by simp
  then have "re_search (c # cs) = Some (pattern_literal @ tok)" by simp
  then show ?thesis using e by simp
qed

subsection \<open>Circuit collection and the frame of a step\<close>

lemma collect_result:
  "collect env cs ic rc (w, log) = (Inr (ic', rc'), (w', log')) \<Longrightarrow>
     ic' = ic @ map intro_snapshot (filter is_intro cs) \<and>
     rc' = rc @ map rend_snapshot (filter is_rend cs) \<and>
     log' = log @ concat (map circuit_events cs)"
proof (induction cs arbitrary: ic rc w log)
  case Nil
  then show ?case by simp
next
  case (Cons c cs)
  obtain r w1 where cl: "close_circuit env (circ_id c) w = (r, w1)"
    by (cases "close_circuit env (circ_id c) w")
  show ?case
  proof (cases r)
    case (Inl e)
    with Cons.prems cl show ?thesis by (simp add: Let_def)
  next
    case (Inr u)
    with Cons.prems cl have
      "collect env cs (if is_intro c then ic @ [intro_snapshot c] else ic)
         (if is_rend c then rc @ [rend_snapshot c] else rc) (w1, log @ circuit_events c)
       = (Inr (ic', rc'), (w', log'))"
      by (simp add: Let_def)
    from Cons.IH [OF this] show ?thesis by simp
  qed
qed


lemma closed_ids_append: "closed_ids (xs @ ys) = closed_ids xs @ closed_ids ys"
  by (induction xs rule: closed_ids.induct) auto

lemma closed_ids_circuit_events: "closed_ids (concat (map circuit_events cs)) = map circ_id cs"
  by (induction cs) (auto simp: circuit_events_def closed_ids_append)

lemma restrict_update_out: "k \<notin> A \<Longrightarrow> AList.restrict A (AList.update k v al) = AList.restrict A al"
  by (induction al) auto

lemmas step_defs = probe_def diagnose_def try_body_def inspect_def report_def
lemmas step_splits = option.splits pyval.splits prod.splits sum.splits if_splits flow.splits

lemma probe_frame:
  "probe env t inst s = (f, inst', s') \<Longrightarrow>
     AList.restrict (- result_keys) inst' = AList.restrict (- result_keys) inst"
  by (auto simp: step_defs result_keys_def restrict_update_out Let_def split: step_splits)

lemma inspect_frame:
  "inspect env inst s = (f, inst', s') \<Longrightarrow>
     AList.restrict (- result_keys) inst' = AList.restrict (- result_keys) inst"
  by (auto simp: step_defs result_keys_def restrict_update_out Let_def split: step_splits)

lemma report_same: "report inst s = (f, inst', s') \<Longrightarrow> inst' = inst"
  by (auto simp: step_defs split: step_splits)

lemma check_instance_frame:
  "check_instance env t inst s = (r, inst', s') \<Longrightarrow>
     AList.restrict (- result_keys) inst' = AList.restrict (- result_keys) inst"
  unfolding check_instance_def
  by (auto split: step_splits dest!: probe_frame inspect_frame report_same)

lemma check_instances_frame:
  "check_instances env t insts s = (r, out, s') \<Longrightarrow>
     length out = length insts \<and>
     (\<forall>n<length insts. AList.restrict (- result_keys) (out ! n) = AList.restrict (- result_keys) (insts ! n))"
proof (induction insts arbitrary: s r out s')
  case Nil
  then show ?case by simp
next
  case (Cons inst rest)
  obtain r1 inst1 s1 where ci: "check_instance env t inst s = (r1, inst1, s1)"
    by (cases "check_instance env t inst s")
  have fr: "AList.restrict (- result_keys) inst1 = AList.restrict (- result_keys) inst"
    using check_instance_frame [OF ci] .
  show ?case
  proof (cases r1)
    case (Some e)
    with Cons.prems ci have "out = inst1 # rest" by simp
    with fr show ?thesis by (auto simp: nth_Cons split: nat.splits)
  next
    case None
    obtain r2 rest1 s2 where cr: "check_instances env t rest s1 = (r2, rest1, s2)"
      by (cases "check_instances env t rest s1")
    with Cons.prems ci None have o: "out = inst1 # rest1" by simp
    from Cons.IH [OF cr] fr o show ?thesis by (auto simp: nth_Cons split: nat.splits)
  qed
qed

lemma restrict_lookup:
  "AList.restrict A xs = AList.restrict A ys \<Longrightarrow> k \<in> A \<Longrightarrow> map_of xs k = map_of ys k"
  by (metis restr_conv' restrict_in)

lemma inspect_result:
  assumes "get_circuits env w = (Inr cs, w1)"
    and "inspect env inst (w, log) = (Proceed, inst', (w', log'))"
  shows "inst' = AList.update ''rend_circs'' (Snaps (map rend_snapshot (filter is_rend cs)))
                   (AList.update ''intro_circs'' (Snaps (map intro_snapshot (filter is_intro cs))) inst)
         \<and> log' = log @ Get_circuits # concat (map circuit_events cs)"
proof -
  obtain r s2 where c: "collect env cs [] [] (w1, log @ [Get_circuits]) = (r, s2)"
    by (cases "collect env cs [] [] (w1, log @ [Get_circuits])")
  show ?thesis
  proof (cases r)
    case (Inl e)
    with assms c show ?thesis by (simp add: inspect_def)
  next
    case (Inr p)
    obtain ic rc where p: "p = (ic, rc)" by (cases p)
    from assms c Inr p have e: "inst' = AList.update ''rend_circs'' (Snaps rc)
        (AList.update ''intro_circs'' (Snaps ic) inst)" "s2 = (w', log')"
      by (simp_all add: inspect_def)
    from c Inr p e(2) have "collect env cs [] [] (w1, log @ [Get_circuits]) = (Inr (ic, rc), (w', log'))"
      by simp
    from collect_result [OF this] e(1) show ?thesis by simp
  qed
qed

lemma filters_le:
  "length (filter is_intro cs) + length (filter is_rend cs) \<le> length cs"
  by (induction cs) (auto simp: is_intro_def is_rend_def)

subsection \<open>The steps of one iteration\<close>

lemma probe_reached:
  assumes "map_of inst ''ths_address'' = Some (Str a)"
    and "opener_open env (''http://'' @ a) t w = (Inr body, w1)"
    and "parse_version body = Inr v"
  shows "probe env t inst (w, log) =
           (Proceed, AList.update ''version'' (Str v) inst, (w1, log @ [Open_url (''http://'' @ a) t]))"
  using assms by (simp add: probe_def try_body_def)

lemma probe_malformed:
  assumes "map_of inst ''ths_address'' = Some (Str a)"
    and "opener_open env (''http://'' @ a) t w = (Inr body, w1)"
    and "parse_version body = Inl e"
  shows "probe env t inst (w, log) =
           (if caught e then diagnose env a inst (w1, log @ [Open_url (''http://'' @ a) t])
            else (Raise e, inst, (w1, log @ [Open_url (''http://'' @ a) t])))"
  using assms by (simp add: probe_def try_body_def)

lemma probe_failed:
  assumes "map_of inst ''ths_address'' = Some (Str a)"
    and "opener_open env (''http://'' @ a) t w = (Inl e, w1)"
    and "caught e"
  shows "probe env t inst (w, log) = diagnose env a inst (w1, log @ [Open_url (''http://'' @ a) t])"
  using assms by (simp add: probe_def try_body_def)

lemma check_instances_append:
  "check_instances env t (xs @ ys) s =
     (case check_instances env t xs s of
        (Some e, xs', s1) \<Rightarrow> (Some e, xs' @ ys, s1)
      | (None, xs', s1) \<Rightarrow>
          (case check_instances env t ys s1 of (r, ys', s2) \<Rightarrow> (r, xs' @ ys', s2)))"
proof (induction xs arbitrary: s)
  case Nil
  then show ?case by (simp split: prod.splits)
next
  case (Cons x xs)
  show ?case
    by (simp add: Cons.IH split: prod.splits option.splits)
qed

lemma parse_version_chars:
  assumes "parse_version body = Inr v"
  shows "\<forall>c\<in>set v. is_version_char c"
proof (cases "re_search body")
  case None
  with assms show ?thesis by (simp add: parse_version_def)
next
  case (Some m)
  then obtain tok where t: "m = pattern_literal @ tok" "\<forall>c\<in>set tok. is_version_char c"
    using re_search_form by blast
  with Some have "parse_version body = Inr (butlast tok)"
    by (simp add: parse_version_match)
  with assms have "v = butlast tok" by simp
  with t(2) show ?thesis by (auto dest: in_set_butlastD)
qed

lemma unreachable_not_version: "\<forall>c\<in>set v. is_version_char c \<Longrightarrow> v \<noteq> ''unreachable''"
proof
  assume a: "\<forall>c\<in>set v. is_version_char c" and "v = ''unreachable''"
  then have "CHR ''u'' \<in> set v" by simp
  with a have "is_version_char CHR ''u''" by blast
  then show False by (simp add: is_version_char_def)
qed

lemma diagnose_outcome:
  assumes "diagnose env a inst s = (f, inst1, s1)"
  shows "(\<exists>e. f = Raise e) \<or>
         (\<exists>d. inst1 = AList.update ''intro_pts'' (Str d)
                        (AList.update ''version'' (Str ''unreachable'') inst))"
proof -
  obtain w log where s: "s = (w, log)" by (cases s)
  obtain r w1 where g: "get_hidden_service_descriptor env a w = (r, w1)"
    by (cases "get_hidden_service_descriptor env a w")
  show ?thesis
  proof (cases r)
    case (Inl e)
    with assms s g show ?thesis
      by (cases "e = DescriptorUnavailable") (auto simp: diagnose_def Let_def)
  next
    case (Inr content)
    with assms s g show ?thesis by (auto simp: diagnose_def Let_def)
  qed
qed

lemma probe_outcome:
  assumes "probe env t inst s = (f, inst1, s1)"
  shows "(\<exists>e. f = Raise e) \<or>
         (f = Proceed \<and> (\<exists>v. (\<forall>c\<in>set v. is_version_char c) \<and>
              inst1 = AList.update ''version'' (Str v) inst)) \<or>
         (\<exists>d. inst1 = AList.update ''intro_pts'' (Str d)
                        (AList.update ''version'' (Str ''unreachable'') inst))"
proof (cases "map_of inst ''ths_address''")
  case None
  with assms show ?thesis by (auto simp: probe_def)
next
  case (Some x)
  show ?thesis
  proof (cases x)
    case (Snaps l)
    with Some assms show ?thesis by (auto simp: probe_def)
  next
    case (Str a)
    obtain w log where s: "s = (w, log)" by (cases s)
    obtain r w1 where o: "opener_open env (''http://'' @ a) t w = (r, w1)"
      by (cases "opener_open env (''http://'' @ a) t w")
    let ?s1 = "(w1, log @ [Open_url (''http://'' @ a) t])"
    have tb: "try_body env t a s =
        ((case r of Inl e \<Rightarrow> Inl e | Inr response \<Rightarrow> parse_version response), ?s1)"
      using s o by (simp add: try_body_def)
    have raise_or_diag: "(\<exists>e'. f = Raise e') \<or>
         (\<exists>d. inst1 = AList.update ''intro_pts'' (Str d)
                        (AList.update ''version'' (Str ''unreachable'') inst))"
      if tbe: "try_body env t a s = (Inl e, ?s1)" for e
    proof (cases "caught e")
      case True
      then have "diagnose env a inst ?s1 = (f, inst1, s1)"
        using assms Some Str tbe by (simp add: probe_def)
      from diagnose_outcome [OF this] show ?thesis .
    next
      case False
      then have "f = Raise e"
        using assms Some Str tbe by (simp add: probe_def)
      then show ?thesis by blast
    qed
    show ?thesis
    proof (cases r)
      case (Inl e)
      with tb have "try_body env t a s = (Inl e, ?s1)" by simp
      from raise_or_diag [OF this] show ?thesis by blast
    next
      case (Inr body)
      show ?thesis
      proof (cases "parse_version body")
        case pe: (Inl e)
        with tb Inr have "try_body env t a s = (Inl e, ?s1)" by simp
        from raise_or_diag [OF this] show ?thesis by blast
      next
        case pv: (Inr v)
        then have "\<forall>c\<in>set v. is_version_char c" by (rule parse_version_chars)
        moreover have "try_body env t a s = (Inr v, ?s1)" using tb Inr pv by simp
        then have "f = Proceed \<and> inst1 = AList.update ''version'' (Str v) inst"
          using assms Some Str by (simp add: probe_def)
        ultimately show ?thesis by blast
      qed
    qed
  qed
qed

lemma collect_log:
  "collect env cs ic rc (w, log) = (r, (w', log')) \<Longrightarrow> \<exists>tr. log' = log @ tr"
proof (induction cs arbitrary: ic rc w log)
  case Nil
  then show ?case by simp
next
  case (Cons c cs)
  obtain r1 w1 where cl: "close_circuit env (circ_id c) w = (r1, w1)"
    by (cases "close_circuit env (circ_id c) w")
  show ?case
  proof (cases r1)
    case (Inl e)
    with Cons.prems cl show ?thesis by (auto simp: Let_def)
  next
    case (Inr u)
    with Cons.prems cl have
      "collect env cs (if is_intro c then ic @ [intro_snapshot c] else ic)
         (if is_rend c then rc @ [rend_snapshot c] else rc) (w1, log @ circuit_events c)
       = (r, (w', log'))"
      by (simp add: Let_def)
    from Cons.IH [OF this] show ?thesis by auto
  qed
qed

lemma inspect_keeps:
  assumes "inspect env inst (w, log) = (f, inst', (w', log'))"
  shows "map_of inst' ''version'' = map_of inst ''version'' \<and>
         map_of inst' ''intro_pts'' = map_of inst ''intro_pts'' \<and>
         (\<exists>tr. log' = log @ tr)"
proof -
  obtain r w1 where g: "get_circuits env w = (r, w1)" by (cases "get_circuits env w")
  show ?thesis
  proof (cases r)
    case (Inl e)
    with assms g show ?thesis by (auto simp: inspect_def)
  next
    case (Inr cs)
    obtain r2 w2 log2 where c: "collect env cs [] [] (w1, log @ [Get_circuits]) = (r2, (w2, log2))"
      by (cases "collect env cs [] [] (w1, log @ [Get_circuits])") auto
    from collect_log [OF c] obtain tr where tr: "log2 = log @ Get_circuits # tr" by auto
    from assms g Inr c tr show ?thesis
      by (cases r2) (auto simp: inspect_def update_conv')
  qed
qed

lemma report_keeps:
  "report inst (w, log) = (f, inst', (w', log')) \<Longrightarrow> inst' = inst \<and> (\<exists>tr. log' = log @ tr)"
  by (auto simp: report_def split: option.splits if_splits)

lemma after_probe:
  assumes "probe env t inst s = (f, inst1, (w1, log1))"
    and "check_instance env t inst s = (r, inst', (w', log'))"
  shows "map_of inst' ''version'' = map_of inst1 ''version'' \<and>
         map_of inst' ''intro_pts'' = map_of inst1 ''intro_pts'' \<and>
         (\<exists>tr. log' = log1 @ tr) \<and>
         (r = None \<longrightarrow> (\<forall>e. f \<noteq> Raise e))"
proof (cases f)
  case (Raise e)
  with assms show ?thesis by (auto simp: check_instance_def)
next
  case Continue
  with assms show ?thesis by (auto simp: check_instance_def)
next
  case Proceed
  obtain f2 inst2 w2 log2 where i: "inspect env inst1 (w1, log1) = (f2, inst2, (w2, log2))"
    by (cases "inspect env inst1 (w1, log1)") auto
  note k = inspect_keeps [OF i]
  show ?thesis
  proof (cases f2)
    case Proceed2: Proceed
    obtain f3 inst3 w3 log3 where rp: "report inst2 (w2, log2) = (f3, inst3, (w3, log3))"
      by (cases "report inst2 (w2, log2)") auto
    note rk = report_keeps [OF rp]
    from assms Proceed i Proceed2 rp have "inst' = inst3 \<and> log' = log3"
      by (cases f3) (simp_all add: check_instance_def)
    with k rk Proceed show ?thesis by auto
  next
    case Continue
    with assms Proceed i k show ?thesis by (auto simp: check_instance_def)
  next
    case (Raise e)
    with assms Proceed i k show ?thesis by (auto simp: check_instance_def)
  qed
qed



lemma check_instance_completed:
  assumes "check_instance env t inst s = (None, inst', s')"
  shows "(\<exists>v. map_of inst' ''version'' = Some (Str v) \<and>
              (v = ''unreachable'' \<or> (\<forall>c\<in>set v. is_version_char c))) \<and>
         (map_of inst ''intro_pts'' = None \<longrightarrow>
            (map_of inst' ''intro_pts'' \<noteq> None \<longleftrightarrow>
             map_of inst' ''version'' = Some (Str ''unreachable'')))"
proof -
  obtain f inst1 w1 log1 where p: "probe env t inst s = (f, inst1, (w1, log1))"
    by (cases "probe env t inst s") auto
  obtain w' log' where s': "s' = (w', log')" by (cases s')
  from after_probe [OF p] assms s' have
    k: "map_of inst' ''version'' = map_of inst1 ''version''"
       "map_of inst' ''intro_pts'' = map_of inst1 ''intro_pts''" "\<forall>e. f \<noteq> Raise e"
    by auto
  from probe_outcome [OF p] k(3) consider
    (reached) v where "\<forall>c\<in>set v. is_version_char c" "inst1 = AList.update ''version'' (Str v) inst"
    | (down) d where "inst1 = AList.update ''intro_pts'' (Str d)
                        (AList.update ''version'' (Str ''unreachable'') inst)"
    by blast
  then show ?thesis
  proof cases
    case reached
    with k unreachable_not_version [OF reached(1)] show ?thesis
      by (auto simp: update_conv')
  next
    case down
    with k show ?thesis by (simp add: update_conv')
  qed
qed

lemma check_instances_completed:
  "check_instances env t insts s = (None, out, s') \<Longrightarrow>
     list_all2 (\<lambda>i o'. \<exists>s1 s2. check_instance env t i s1 = (None, o', s2)) insts out"
proof (induction insts arbitrary: s out)
  case Nil
  then show ?case by simp
next
  case (Cons inst rest)
  obtain r1 inst1 s1 where ci: "check_instance env t inst s = (r1, inst1, s1)"
    by (cases "check_instance env t inst s")
  show ?case
  proof (cases r1)
    case (Some e)
    with Cons.prems ci show ?thesis by simp
  next
    case None
    obtain r2 rest1 s2 where cr: "check_instances env t rest s1 = (r2, rest1, s2)"
      by (cases "check_instances env t rest s1")
    with Cons.prems ci None have o: "out = inst1 # rest1" "r2 = None" "s2 = s'" by simp_all
    from Cons.IH [of s1 rest1] cr o have "list_all2 (\<lambda>i o'. \<exists>s1 s2. check_instance env t i s1 = (None, o', s2)) rest rest1"
      by simp
    moreover from ci None have "\<exists>s1 s2. check_instance env t inst s1 = (None, inst1, s2)"
      by blast
    ultimately show ?thesis using o by simp
  qed
qed

lemma completed_member:
  assumes "check_instances env t insts s = (None, out, s')" and "o' \<in> set out"
  shows "\<exists>i\<in>set insts. \<exists>s1 s2. check_instance env t i s1 = (None, o', s2)"
proof -
  from check_instances_completed [OF assms(1)]
  have l: "list_all2 (\<lambda>i o'. \<exists>s1 s2. check_instance env t i s1 = (None, o', s2)) insts out" .
  from assms(2) obtain n where n: "n < length out" "out ! n = o'"
    by (auto simp: in_set_conv_nth)
  from l n have "\<exists>s1 s2. check_instance env t (insts ! n) s1 = (None, o', s2)"
    by (auto dest: list_all2_nthD2)
  moreover from l n have "insts ! n \<in> set insts"
    by (auto dest: list_all2_lengthD)
  ultimately show ?thesis by blast
qed



subsection \<open>Concrete runs\<close>

lemmas run_defs = check_instance_def probe_def try_body_def diagnose_def inspect_def report_def
  parse_version_def py_last_def split_ws_def match_at_def pattern_literal_def
  is_version_char_def is_space_def caught_def circuit_events_def is_intro_def is_rend_def
  sim_env_def page_env_def down_env_def two_page_env_def inst_of_def Let_def

lemma run_unavailable:
  "check_instance (down_env URLError (Inl DescriptorUnavailable)) 30 (inst_of ''gone.onion'') ([circ_c], []) =
     (None,
      inst_of ''gone.onion'' @ [(''version'', Str ''unreachable''),
                                (''intro_pts'', Str ''descriptor unavailable'')],
      ([circ_c],
       [Open_url ''http://gone.onion'' 30, Get_descriptor ''gone.onion'',
        Print (inst_of ''gone.onion'' @ [(''version'', Str ''unreachable''),
                                (''intro_pts'', Str ''descriptor unavailable'')])]))"
  by (simp add: run_defs)

lemma run_empty_version:
  "check_instance (page_env ''Powered by SecureDrop 7'') 30 (inst_of ''a.onion'') ([], []) =
     (None,
      inst_of ''a.onion'' @ [(''version'', Str ''''), (''intro_circs'', Snaps []),
                             (''rend_circs'', Snaps [])],
      ([], [Open_url ''http://a.onion'' 30, Get_circuits]))"
  by (simp add: run_defs)

lemma run_longer_token:
  "check_instance (page_env ''Powered by SecureDrop 2.5.0.1'') 30 (inst_of ''a.onion'') ([], []) =
     (None,
      inst_of ''a.onion'' @ [(''version'', Str ''2.5.0.''), (''intro_circs'', Snaps []),
                             (''rend_circs'', Snaps [])],
      ([], [Open_url ''http://a.onion'' 30, Get_circuits]))"
  by (simp add: run_defs)

lemma run_first_page:
  "check_instances two_page_env 30 [inst_of ''a.onion''] ([], []) =
     (None,
      [inst_of ''a.onion'' @ [(''version'', Str ''1.0''), (''intro_circs'', Snaps []),
                              (''rend_circs'', Snaps [])]],
      ([], [Open_url ''http://a.onion'' 30, Get_circuits]))"
  by (simp add: run_defs)

lemma run_down:
  "check_instance (down_env SOCKS5Error (Inr ''intro-points'')) 30 (inst_of ''down.onion'') ([circ_a], []) =
     (None,
      inst_of ''down.onion'' @ [(''version'', Str ''unreachable''), (''intro_pts'', Str ''intro-points''),
                                (''intro_circs'', Snaps [intro_snapshot circ_a]),
                                (''rend_circs'', Snaps [])],
      ([],
       [Open_url ''http://down.onion'' 30, Get_descriptor ''down.onion'', Get_circuits,
        Append_intro ''7'', Close_circuit ''7'',
        Print (inst_of ''down.onion'' @ [(''version'', Str ''unreachable''), (''intro_pts'', Str ''intro-points''),
                                (''intro_circs'', Snaps [intro_snapshot circ_a]),
                                (''rend_circs'', Snaps [])])]))"
  by (simp add: run_defs circ_a_def)

lemma search_hello: "re_search ''<html>hello</html>'' = None"
  by (simp add: match_at_def pattern_literal_def)

lemma search_undotted:
  "re_search ''<p>Powered by SecureDrop 2.5.0</p>'' = Some (pattern_literal @ ''2.5.0'')"
  by (simp add: match_at_def pattern_literal_def is_version_char_def)

lemma run_brittle_intro:
  "check_instance (brittle_env ''7'') 30 (inst_of ''a.onion'') ([circ_a, circ_b], []) =
     (Some (OtherError ''close failed''),
      inst_of ''a.onion'' @ [(''version'', Str ''1.0'')],
      ([circ_a, circ_b],
       [Open_url ''http://a.onion'' 30, Get_circuits, Append_intro ''7'', Close_circuit ''7'']))"
  by (simp add: run_defs brittle_env_def circ_a_def circ_b_def)

lemma run_brittle_general:
  "check_instance (brittle_env ''9'') 30 (inst_of ''a.onion'') ([circ_c, circ_a], []) =
     (Some (OtherError ''close failed''),
      inst_of ''a.onion'' @ [(''version'', Str ''1.0'')],
      ([circ_c, circ_a],
       [Open_url ''http://a.onion'' 30, Get_circuits, Close_circuit ''9'']))"
  by (simp add: run_defs brittle_env_def circ_a_def circ_c_def)

lemma purpose_counts:
  "length (filter (\<lambda>c. purpose c = Some ''HS_CLIENT_INTRO'') cs) +
   length (filter (\<lambda>c. purpose c = Some ''HS_CLIENT_REND'') cs) +
   length (filter (\<lambda>c. purpose c \<noteq> Some ''HS_CLIENT_INTRO'' \<and> purpose c \<noteq> Some ''HS_CLIENT_REND'') cs)
   = length (cs :: circuit list)"
  by (induction cs) auto

subsection \<open>The presence of the diagnostic payload and of the version\<close>

text \<open>
  Claim C1, as amended. For a record that was processed to completion and carried no
  \<^verbatim>\<open>intro_pts\<close> on entry (as \<^verbatim>\<open>read_directory\<close> builds it), \<^verbatim>\<open>intro_pts\<close> is
  present if and only if \<^verbatim>\<open>version\<close> is \<^verbatim>\<open>"unreachable"\<close>; whether the descriptor
  fetch hit the unavailable-descriptor condition plays no part, because the handler then
  stores the sentinel. Stated for one iteration and for a whole run that returns.
\<close>

theorem intro_pts_iff_unreachable:
  "(check_instance env t inst s = (None, inst', s') \<and> map_of inst ''intro_pts'' = None \<longrightarrow>
      (map_of inst' ''intro_pts'' \<noteq> None \<longleftrightarrow>
       map_of inst' ''version'' = Some (Str ''unreachable''))) \<and>
   (check_instances env t insts s = (None, out, s'') \<and>
    (\<forall>i\<in>set insts. map_of i ''intro_pts'' = None) \<longrightarrow>
      (\<forall>o'\<in>set out. map_of o' ''intro_pts'' \<noteq> None \<longleftrightarrow>
                      map_of o' ''version'' = Some (Str ''unreachable'')))"
proof (intro conjI impI ballI)
  assume "check_instance env t inst s = (None, inst', s') \<and> map_of inst ''intro_pts'' = None"
  then show "map_of inst' ''intro_pts'' \<noteq> None \<longleftrightarrow>
       map_of inst' ''version'' = Some (Str ''unreachable'')"
    using check_instance_completed [of env t inst s inst' s'] by blast
next
  fix o'
  assume a: "check_instances env t insts s = (None, out, s'') \<and>
    (\<forall>i\<in>set insts. map_of i ''intro_pts'' = None)" and o: "o' \<in> set out"
  from completed_member [of env t insts s out s'' o'] a o
  obtain i s1 s2 where i: "i \<in> set insts" "check_instance env t i s1 = (None, o', s2)"
    by blast
  with a have "map_of i ''intro_pts'' = None" by blast
  with check_instance_completed [OF i(2)]
  show "map_of o' ''intro_pts'' \<noteq> None \<longleftrightarrow> map_of o' ''version'' = Some (Str ''unreachable'')"
    by blast
qed

theorem intro_pts_iff_unreachable_witness:
  "check_instance (down_env SOCKS5Error (Inr ''intro-points'')) 30 (inst_of ''down.onion'') ([circ_a], []) =
     (None,
      inst_of ''down.onion'' @ [(''version'', Str ''unreachable''), (''intro_pts'', Str ''intro-points''),
                                (''intro_circs'', Snaps [intro_snapshot circ_a]),
                                (''rend_circs'', Snaps [])],
      ([],
       [Open_url ''http://down.onion'' 30, Get_descriptor ''down.onion'', Get_circuits,
        Append_intro ''7'', Close_circuit ''7'',
        Print (inst_of ''down.onion'' @ [(''version'', Str ''unreachable''), (''intro_pts'', Str ''intro-points''),
                                (''intro_circs'', Snaps [intro_snapshot circ_a]),
                                (''rend_circs'', Snaps [])])])) \<and>
   fst (check_instances (down_env SOCKS5Error (Inr ''intro-points'')) 30 [inst_of ''down.onion'']
          ([circ_a], [])) = None \<and>
   fst (snd (check_instances (down_env SOCKS5Error (Inr ''intro-points'')) 30 [inst_of ''down.onion'']
          ([circ_a], []))) =
     [inst_of ''down.onion'' @ [(''version'', Str ''unreachable''), (''intro_pts'', Str ''intro-points''),
                                (''intro_circs'', Snaps [intro_snapshot circ_a]),
                                (''rend_circs'', Snaps [])]] \<and>
   map_of (inst_of ''down.onion'') ''intro_pts'' = None \<and>
   (map_of (inst_of ''down.onion'' @ [(''version'', Str ''unreachable''), (''intro_pts'', Str ''intro-points''),
                                (''intro_circs'', Snaps [intro_snapshot circ_a]),
                                (''rend_circs'', Snaps [])]) ''intro_pts'' \<noteq> None \<longleftrightarrow>
    map_of (inst_of ''down.onion'' @ [(''version'', Str ''unreachable''), (''intro_pts'', Str ''intro-points''),
                                (''intro_circs'', Snaps [intro_snapshot circ_a]),
                                (''rend_circs'', Snaps [])]) ''version'' = Some (Str ''unreachable''))"
proof -
  let ?env = "down_env SOCKS5Error (Inr ''intro-points'')"
  let ?out = "inst_of ''down.onion'' @ [(''version'', Str ''unreachable''), (''intro_pts'', Str ''intro-points''),
                                (''intro_circs'', Snaps [intro_snapshot circ_a]),
                                (''rend_circs'', Snaps [])]"
  let ?s = "([]::circuit list,
       [Open_url ''http://down.onion'' 30, Get_descriptor ''down.onion'', Get_circuits,
        Append_intro ''7'', Close_circuit ''7'', Print ?out])"
  have h: "map_of (inst_of ''down.onion'') ''intro_pts'' = None"
    by (simp add: inst_of_def)
  have run: "check_instances ?env 30 [inst_of ''down.onion''] ([circ_a], []) = (None, [?out], ?s)"
    by (simp add: run_down)
  have all: "\<forall>i\<in>set [inst_of ''down.onion'']. map_of i ''intro_pts'' = None"
    using h by simp
  note th = intro_pts_iff_unreachable [where env = ?env and t = 30 and inst = "inst_of ''down.onion''"
      and s = "([circ_a], [])" and inst' = ?out and s' = ?s and insts = "[inst_of ''down.onion'']"
      and out = "[?out]" and s'' = ?s]
  from th run_down h have one: "map_of ?out ''intro_pts'' \<noteq> None \<longleftrightarrow>
      map_of ?out ''version'' = Some (Str ''unreachable'')"
    by blast
  from th run all have "\<forall>o'\<in>set [?out]. map_of o' ''intro_pts'' \<noteq> None \<longleftrightarrow>
      map_of o' ''version'' = Some (Str ''unreachable'')"
    by blast
  with one run run_down h show ?thesis by simp
qed

text \<open>
  Claim C1 as stated fails: the probe raises \<^verbatim>\<open>URLError\<close> and the descriptor fetch raises
  \<^verbatim>\<open>DescriptorUnavailable\<close>; the record is processed to completion and \<^verbatim>\<open>intro_pts\<close>
  is present although the fetch did hit the unavailable-descriptor condition.
\<close>

theorem intro_pts_present_when_unavailable:
  "fst (check_instance (down_env URLError (Inl DescriptorUnavailable)) 30 (inst_of ''gone.onion'') ([circ_c], [])) = None \<and>
   fst (get_hidden_service_descriptor (down_env URLError (Inl DescriptorUnavailable)) ''gone.onion'' [circ_c])
     = Inl DescriptorUnavailable \<and>
   \<not> (map_of (fst (snd (check_instance (down_env URLError (Inl DescriptorUnavailable)) 30
                          (inst_of ''gone.onion'') ([circ_c], [])))) ''intro_pts'' \<noteq> None
      \<longleftrightarrow>
      map_of (fst (snd (check_instance (down_env URLError (Inl DescriptorUnavailable)) 30
                          (inst_of ''gone.onion'') ([circ_c], [])))) ''version'' = Some (Str ''unreachable'') \<and>
      fst (get_hidden_service_descriptor (down_env URLError (Inl DescriptorUnavailable)) ''gone.onion'' [circ_c])
        \<noteq> Inl DescriptorUnavailable)"
proof -
  have "fst (get_hidden_service_descriptor (down_env URLError (Inl DescriptorUnavailable)) ''gone.onion'' [circ_c])
     = Inl DescriptorUnavailable"
    by (simp add: down_env_def sim_env_def)
  then show ?thesis
    unfolding run_unavailable by (simp add: inst_of_def)
qed

text \<open>
  Claim C2. Every record that completes the pipeline should have \<^verbatim>\<open>version\<close> set to a
  non-empty version token or to \<^verbatim>\<open>"unreachable"\<close>. The code does not ensure it: the
  slice \<^verbatim>\<open>[:-1]\<close>, meant for the period that ends the sentence, is applied whatever the
  last character of the token is. For the body \<^verbatim>\<open>Powered by SecureDrop 7\<close> the token is
  \<^verbatim>\<open>7\<close> and the record completes the pipeline with an empty \<^verbatim>\<open>version\<close>.
\<close>

theorem version_can_be_empty:
  "fst (check_instance (page_env ''Powered by SecureDrop 7'') 30 (inst_of ''a.onion'') ([], [])) = None \<and>
   map_of (fst (snd (check_instance (page_env ''Powered by SecureDrop 7'') 30 (inst_of ''a.onion'') ([], []))))
     ''version'' = Some (Str '''')"
  unfolding run_empty_version by (simp add: inst_of_def)

subsection \<open>Failures of the probe\<close>




text \<open>
  Claim C4. If the probe fails with a caught error and the descriptor fetch raises
  \<^verbatim>\<open>DescriptorUnavailable\<close>, the iteration ends normally with \<^verbatim>\<open>intro_pts\<close> set to
  \<^verbatim>\<open>"descriptor unavailable"\<close>; the log holds the probe, the fetch and the print of that
  partial record and nothing else, so no circuit is enumerated or closed, and
  \<^verbatim>\<open>intro_circs\<close> and \<^verbatim>\<open>rend_circs\<close> are as they were on entry (absent when they were
  absent).
\<close>

theorem descriptor_unavailable_short_circuit:
  assumes "map_of inst ''ths_address'' = Some (Str a)"
    and "opener_open env (''http://'' @ a) t w = (Inl e, w1)"
    and "e = SOCKS5Error \<or> e = GeneralProxyError \<or> e = URLError"
    and "get_hidden_service_descriptor env a w1 = (Inl DescriptorUnavailable, w2)"
    and "inst' = AList.update ''intro_pts'' (Str ''descriptor unavailable'')
                   (AList.update ''version'' (Str ''unreachable'') inst)"
  shows "check_instance env t inst (w, log) =
           (None, inst', (w2, log @ [Open_url (''http://'' @ a) t, Get_descriptor a, Print inst'])) \<and>
         map_of inst' ''intro_pts'' = Some (Str ''descriptor unavailable'') \<and>
         map_of inst' ''version'' = Some (Str ''unreachable'') \<and>
         map_of inst' ''intro_circs'' = map_of inst ''intro_circs'' \<and>
         map_of inst' ''rend_circs'' = map_of inst ''rend_circs''"
proof -
  have c: "caught e" using assms(3) by (simp add: caught_def)
  have "probe env t inst (w, log) =
      (Continue, inst', (w2, log @ [Open_url (''http://'' @ a) t, Get_descriptor a, Print inst']))"
    using probe_failed [OF assms(1,2) c] assms(4,5) by (simp add: diagnose_def Let_def)
  then have "check_instance env t inst (w, log) =
           (None, inst', (w2, log @ [Open_url (''http://'' @ a) t, Get_descriptor a, Print inst']))"
    by (simp add: check_instance_def)
  then show ?thesis
    by (simp add: assms(5) update_conv')
qed

theorem descriptor_unavailable_short_circuit_witness:
  "map_of (inst_of ''gone.onion'') ''ths_address'' = Some (Str ''gone.onion'') \<and>
   opener_open (down_env URLError (Inl DescriptorUnavailable)) (''http://'' @ ''gone.onion'') 30 [circ_c]
     = (Inl URLError, [circ_c]) \<and>
   get_hidden_service_descriptor (down_env URLError (Inl DescriptorUnavailable)) ''gone.onion'' [circ_c]
     = (Inl DescriptorUnavailable, [circ_c]) \<and>
   check_instance (down_env URLError (Inl DescriptorUnavailable)) 30 (inst_of ''gone.onion'') ([circ_c], []) =
     (None,
      AList.update ''intro_pts'' (Str ''descriptor unavailable'')
        (AList.update ''version'' (Str ''unreachable'') (inst_of ''gone.onion'')),
      ([circ_c],
       [] @ [Open_url (''http://'' @ ''gone.onion'') 30, Get_descriptor ''gone.onion'',
             Print (AList.update ''intro_pts'' (Str ''descriptor unavailable'')
                      (AList.update ''version'' (Str ''unreachable'') (inst_of ''gone.onion'')))])) \<and>
   map_of (AList.update ''intro_pts'' (Str ''descriptor unavailable'')
        (AList.update ''version'' (Str ''unreachable'') (inst_of ''gone.onion''))) ''intro_circs'' = None"
proof -
  let ?env = "down_env URLError (Inl DescriptorUnavailable)"
  have h1: "map_of (inst_of ''gone.onion'') ''ths_address'' = Some (Str ''gone.onion'')"
    by (simp add: inst_of_def)
  have h2: "opener_open ?env (''http://'' @ ''gone.onion'') 30 [circ_c] = (Inl URLError, [circ_c])"
    by (simp add: down_env_def sim_env_def)
  have h3: "URLError = SOCKS5Error \<or> URLError = GeneralProxyError \<or> URLError = URLError"
    by simp
  have h4: "get_hidden_service_descriptor ?env ''gone.onion'' [circ_c] = (Inl DescriptorUnavailable, [circ_c])"
    by (simp add: down_env_def sim_env_def)
  have h6: "map_of (inst_of ''gone.onion'') ''intro_circs'' = None"
    by (simp add: inst_of_def)
  from descriptor_unavailable_short_circuit [OF h1 h2 h3 h4 refl, of "[]"] h1 h2 h4 h6
  show ?thesis by simp
qed

text \<open>
  Claim C7. If the probe of a record returns a body in which the pattern has no match, the
  iteration raises \<^verbatim>\<open>AttributeError\<close> right after the probe: the record is unchanged and
  nothing further is logged. In a run, the exception leaves \<^verbatim>\<open>check_instances\<close>, the
  records completed before are exactly as their own iterations left them, and the records
  after are untouched.
\<close>

theorem malformed_response_propagates:
  assumes "check_instances env t done s = (None, done', (w1, log1))"
    and "map_of inst ''ths_address'' = Some (Str a)"
    and "opener_open env (''http://'' @ a) t w1 = (Inr body, w2)"
    and "re_search body = None"
  shows "check_instance env t inst (w1, log1) =
           (Some AttributeError, inst, (w2, log1 @ [Open_url (''http://'' @ a) t])) \<and>
         check_instances env t (done @ inst # rest) s =
           (Some AttributeError, done' @ inst # rest, (w2, log1 @ [Open_url (''http://'' @ a) t]))"
proof -
  have pv: "parse_version body = Inl AttributeError"
    using assms(4) by (rule parse_version_nomatch)
  have "probe env t inst (w1, log1) = (Raise AttributeError, inst, (w2, log1 @ [Open_url (''http://'' @ a) t]))"
    using probe_malformed [OF assms(2,3) pv] by (simp add: caught_def)
  then have ci: "check_instance env t inst (w1, log1) =
           (Some AttributeError, inst, (w2, log1 @ [Open_url (''http://'' @ a) t]))"
    by (simp add: check_instance_def)
  then have "check_instances env t (inst # rest) (w1, log1) =
           (Some AttributeError, inst # rest, (w2, log1 @ [Open_url (''http://'' @ a) t]))"
    by simp
  with assms(1) ci show ?thesis
    by (simp add: check_instances_append)
qed

theorem malformed_response_propagates_witness:
  "check_instances two_page_env 30 [inst_of ''a.onion''] ([], []) =
     (None,
      [inst_of ''a.onion'' @ [(''version'', Str ''1.0''), (''intro_circs'', Snaps []),
                              (''rend_circs'', Snaps [])]],
      ([], [Open_url ''http://a.onion'' 30, Get_circuits])) \<and>
   map_of (inst_of ''b.onion'') ''ths_address'' = Some (Str ''b.onion'') \<and>
   opener_open two_page_env (''http://'' @ ''b.onion'') 30 [] = (Inr ''<html>hello</html>'', []) \<and>
   re_search ''<html>hello</html>'' = None \<and>
   check_instances two_page_env 30 ([inst_of ''a.onion''] @ inst_of ''b.onion'' # [inst_of ''c.onion'']) ([], []) =
     (Some AttributeError,
      [inst_of ''a.onion'' @ [(''version'', Str ''1.0''), (''intro_circs'', Snaps []),
                              (''rend_circs'', Snaps [])]] @ inst_of ''b.onion'' # [inst_of ''c.onion''],
      ([], [Open_url ''http://a.onion'' 30, Get_circuits] @ [Open_url (''http://'' @ ''b.onion'') 30]))"
proof -
  have h2: "map_of (inst_of ''b.onion'') ''ths_address'' = Some (Str ''b.onion'')"
    by (simp add: inst_of_def)
  have h3: "opener_open two_page_env (''http://'' @ ''b.onion'') 30 [] = (Inr ''<html>hello</html>'', [])"
    by (simp add: two_page_env_def sim_env_def)
  from malformed_response_propagates [OF run_first_page h2 h3 search_hello, of "[inst_of ''c.onion'']"]
    run_first_page h2 h3 search_hello
  show ?thesis by blast
qed

subsection \<open>The parsed version\<close>

text \<open>
  Claim C6, as amended. If the body contains \<^verbatim>\<open>Powered by SecureDrop 2.5.0.\<close>, no match of
  the pattern starts before that occurrence, and the occurrence is followed by the end of
  the body or by a character that is neither a digit nor a dot, then the checker sets
  \<^verbatim>\<open>version\<close> to \<^verbatim>\<open>2.5.0\<close>, and the record keeps it however the iteration ends.
\<close>

theorem version_2_5_0_parsed:
  assumes addr: "map_of inst ''ths_address'' = Some (Str a)"
    and page: "opener_open env (''http://'' @ a) t w = (Inr body, w1)"
    and body: "body = pre @ ''Powered by SecureDrop 2.5.0.'' @ post"
    and first: "\<forall>k<length pre. match_at (drop k body) = None"
    and stop: "post = [] \<or> \<not> is_version_char (hd post)"
  shows "probe env t inst (w, log) =
           (Proceed, AList.update ''version'' (Str ''2.5.0'') inst,
            (w1, log @ [Open_url (''http://'' @ a) t])) \<and>
         (\<forall>r inst' s'. check_instance env t inst (w, log) = (r, inst', s') \<longrightarrow>
              map_of inst' ''version'' = Some (Str ''2.5.0''))"
proof -
  have tok: "''2.5.0.'' \<noteq> []" "\<forall>c\<in>set ''2.5.0.''. is_version_char c"
    by (simp_all add: is_version_char_def)
  have lit: "''Powered by SecureDrop 2.5.0.'' @ post = pattern_literal @ ''2.5.0.'' @ post"
    by (simp add: pattern_literal_def)
  have "re_search body = re_search (''Powered by SecureDrop 2.5.0.'' @ post)"
    using first unfolding body by (rule re_search_skip)
  also have "\<dots> = Some (pattern_literal @ ''2.5.0.'')"
    unfolding lit using tok stop by (rule re_search_here)
  finally have "parse_version body = Inr (butlast ''2.5.0.'')"
    by (rule parse_version_match)
  then have pv: "parse_version body = Inr ''2.5.0''" by simp
  have p: "probe env t inst (w, log) =
           (Proceed, AList.update ''version'' (Str ''2.5.0'') inst,
            (w1, log @ [Open_url (''http://'' @ a) t]))"
    using addr page pv by (rule probe_reached)
  have "map_of inst' ''version'' = Some (Str ''2.5.0'')"
    if "check_instance env t inst (w, log) = (r, inst', s')" for r inst' s'
  proof -
    obtain w' log' where "s' = (w', log')" by (cases s')
    with that have "check_instance env t inst (w, log) = (r, inst', (w', log'))" by simp
    from after_probe [OF p this] show ?thesis by (simp add: update_conv')
  qed
  with p show ?thesis by blast
qed

theorem version_2_5_0_parsed_witness:
  "map_of (inst_of ''a.onion'') ''ths_address'' = Some (Str ''a.onion'') \<and>
   opener_open (page_env (''<p>'' @ ''Powered by SecureDrop 2.5.0.'' @ ''</p>''))
       (''http://'' @ ''a.onion'') 30 [circ_c]
     = (Inr (''<p>'' @ ''Powered by SecureDrop 2.5.0.'' @ ''</p>''), [circ_c]) \<and>
   match_at (drop 0 (''<p>'' @ ''Powered by SecureDrop 2.5.0.'' @ ''</p>'')) = None \<and>
   match_at (drop 1 (''<p>'' @ ''Powered by SecureDrop 2.5.0.'' @ ''</p>'')) = None \<and>
   match_at (drop 2 (''<p>'' @ ''Powered by SecureDrop 2.5.0.'' @ ''</p>'')) = None \<and>
   length ''<p>'' = 3 \<and>
   \<not> is_version_char (hd ''</p>'') \<and>
   probe (page_env (''<p>'' @ ''Powered by SecureDrop 2.5.0.'' @ ''</p>'')) 30 (inst_of ''a.onion'') ([circ_c], []) =
     (Proceed, AList.update ''version'' (Str ''2.5.0'') (inst_of ''a.onion''),
      ([circ_c], [] @ [Open_url (''http://'' @ ''a.onion'') 30]))"
proof -
  let ?body = "''<p>'' @ ''Powered by SecureDrop 2.5.0.'' @ ''</p>''"
  have h1: "map_of (inst_of ''a.onion'') ''ths_address'' = Some (Str ''a.onion'')"
    by (simp add: inst_of_def)
  have h2: "opener_open (page_env ?body) (''http://'' @ ''a.onion'') 30 [circ_c] = (Inr ?body, [circ_c])"
    by (simp add: page_env_def sim_env_def)
  have h3: "?body = ''<p>'' @ ''Powered by SecureDrop 2.5.0.'' @ ''</p>''" by simp
  have m: "match_at (drop 0 ?body) = None" "match_at (drop 1 ?body) = None"
      "match_at (drop 2 ?body) = None"
    by (simp_all add: match_at_def pattern_literal_def)
  have h4: "\<forall>k<length ''<p>''. match_at (drop k ?body) = None"
  proof (intro allI impI)
    fix k :: nat assume "k < length ''<p>''"
    then have "k = 0 \<or> k = 1 \<or> k = 2" by auto
    with m show "match_at (drop k ?body) = None" by blast
  qed
  have h5: "''</p>'' = [] \<or> \<not> is_version_char (hd ''</p>'')"
    by (simp add: is_version_char_def)
  have h6: "\<not> is_version_char (hd ''</p>'')" "length ''<p>'' = 3"
    by (simp_all add: is_version_char_def)
  from version_2_5_0_parsed [OF h1 h2 h3 h4 h5, of "[]"] h1 h2 m h6 show ?thesis
    by blast
qed

text \<open>
  Claim C6 as stated fails: the body \<^verbatim>\<open>Powered by SecureDrop 2.5.0.1\<close> contains the
  substring, the greedy token is \<^verbatim>\<open>2.5.0.1\<close>, and the recorded version is \<^verbatim>\<open>2.5.0.\<close>.
\<close>

theorem version_2_5_0_not_from_every_body:
  "sublist ''Powered by SecureDrop 2.5.0.'' ''Powered by SecureDrop 2.5.0.1'' \<and>
   fst (check_instance (page_env ''Powered by SecureDrop 2.5.0.1'') 30 (inst_of ''a.onion'') ([], [])) = None \<and>
   map_of (fst (snd (check_instance (page_env ''Powered by SecureDrop 2.5.0.1'') 30
                       (inst_of ''a.onion'') ([], [])))) ''version'' = Some (Str ''2.5.0.'') \<and>
   map_of (fst (snd (check_instance (page_env ''Powered by SecureDrop 2.5.0.1'') 30
                       (inst_of ''a.onion'') ([], [])))) ''version'' \<noteq> Some (Str ''2.5.0'')"
proof -
  have "''Powered by SecureDrop 2.5.0.1'' = [] @ ''Powered by SecureDrop 2.5.0.'' @ ''1''"
    by simp
  then have "sublist ''Powered by SecureDrop 2.5.0.'' ''Powered by SecureDrop 2.5.0.1''"
    unfolding sublist_def by blast
  then show ?thesis
    unfolding run_longer_token by (simp add: inst_of_def)
qed

text \<open>
  Claim C10. Whenever the pattern matches, the matched text is the literal followed by a
  non-empty token of digits and dots, and the recorded version is that token without its
  last character, whatever that character is. When the token does not end in a dot, the
  character removed is a digit.
\<close>

theorem parser_drops_last_char:
  assumes addr: "map_of inst ''ths_address'' = Some (Str a)"
    and page: "opener_open env (''http://'' @ a) t w = (Inr body, w1)"
    and found: "re_search body = Some m"
  shows "\<exists>tok. m = pattern_literal @ tok \<and> tok \<noteq> [] \<and>
           (\<forall>c\<in>set tok. is_version_char c) \<and>
           parse_version body = Inr (butlast tok) \<and>
           probe env t inst (w, log) =
             (Proceed, AList.update ''version'' (Str (butlast tok)) inst,
              (w1, log @ [Open_url (''http://'' @ a) t])) \<and>
           (last tok \<noteq> CHR ''.'' \<longrightarrow>
              last tok \<in> set ''0123456789'' \<and> tok = butlast tok @ [last tok])"
proof -
  from re_search_form [OF found] obtain tok where
    t: "m = pattern_literal @ tok" "tok \<noteq> []" "\<forall>c\<in>set tok. is_version_char c"
    by blast
  from found t(1) have pv: "parse_version body = Inr (butlast tok)"
    by (simp add: parse_version_match)
  have p: "probe env t inst (w, log) =
             (Proceed, AList.update ''version'' (Str (butlast tok)) inst,
              (w1, log @ [Open_url (''http://'' @ a) t]))"
    using addr page pv by (rule probe_reached)
  from t(2,3) have "is_version_char (last tok)" by simp
  then have d: "last tok \<noteq> CHR ''.'' \<longrightarrow> last tok \<in> set ''0123456789''"
    by (auto simp: is_version_char_def)
  from t(2) have "tok = butlast tok @ [last tok]" by simp
  with t pv p d show ?thesis by blast
qed

theorem parser_drops_last_char_witness:
  "map_of (inst_of ''a.onion'') ''ths_address'' = Some (Str ''a.onion'') \<and>
   opener_open (page_env ''<p>Powered by SecureDrop 2.5.0</p>'') (''http://'' @ ''a.onion'') 30 [circ_c]
     = (Inr ''<p>Powered by SecureDrop 2.5.0</p>'', [circ_c]) \<and>
   re_search ''<p>Powered by SecureDrop 2.5.0</p>'' = Some (pattern_literal @ ''2.5.0'') \<and>
   probe (page_env ''<p>Powered by SecureDrop 2.5.0</p>'') 30 (inst_of ''a.onion'') ([circ_c], []) =
     (Proceed, AList.update ''version'' (Str ''2.5.'') (inst_of ''a.onion''),
      ([circ_c], [Open_url ''http://a.onion'' 30]))"
proof -
  let ?body = "''<p>Powered by SecureDrop 2.5.0</p>''"
  have h1: "map_of (inst_of ''a.onion'') ''ths_address'' = Some (Str ''a.onion'')"
    by (simp add: inst_of_def)
  have h2: "opener_open (page_env ?body) (''http://'' @ ''a.onion'') 30 [circ_c] = (Inr ?body, [circ_c])"
    by (simp add: page_env_def sim_env_def)
  from parser_drops_last_char [OF h1 h2 search_undotted, of "[]"]
  obtain tok where "pattern_literal @ ''2.5.0'' = pattern_literal @ tok"
    and p: "probe (page_env ?body) 30 (inst_of ''a.onion'') ([circ_c], []) =
             (Proceed, AList.update ''version'' (Str (butlast tok)) (inst_of ''a.onion''),
              ([circ_c], [] @ [Open_url (''http://'' @ ''a.onion'') 30]))"
    by blast
  then have "tok = ''2.5.0''" by simp
  with p have "probe (page_env ?body) 30 (inst_of ''a.onion'') ([circ_c], []) =
     (Proceed, AList.update ''version'' (Str ''2.5.'') (inst_of ''a.onion''),
      ([circ_c], [Open_url ''http://a.onion'' 30]))"
    by simp
  with h1 h2 search_undotted show ?thesis by blast
qed

subsection \<open>The snapshots and the closing of circuits\<close>

text \<open>
  Claim C5, as amended. When circuit collection completes for a record (no call of the
  controller raises), \<^verbatim>\<open>intro_circs\<close> holds, in enumeration order, one snapshot with
  \<^verbatim>\<open>path\<close>, \<^verbatim>\<open>reason\<close> and \<^verbatim>\<open>remote_reason\<close> of every enumerated circuit of purpose
  \<^verbatim>\<open>HS_CLIENT_INTRO\<close>, and \<^verbatim>\<open>rend_circs\<close> one snapshot with \<^verbatim>\<open>path\<close>, \<^verbatim>\<open>state\<close>,
  \<^verbatim>\<open>reason\<close> and \<^verbatim>\<open>remote_reason\<close> of every circuit of purpose \<^verbatim>\<open>HS_CLIENT_REND\<close>.
  The log of the pass is, entry by entry of the enumeration, the append (if any) followed
  at once by the close of that circuit; every enumerated circuit is closed, and there are
  at most as many snapshots as entries. With exactly one circuit of each purpose, each
  sequence gets exactly one snapshot.
\<close>

theorem circuit_collection_snapshots:
  assumes "get_circuits env w = (Inr cs, w1)"
    and "inspect env inst (w, log) = (Proceed, inst', (w', log'))"
  shows "map_of inst' ''intro_circs'' =
           Some (Snaps (map (\<lambda>c. [(''path'', Hops (path c)), (''reason'', Text (reason c)),
                                   (''remote_reason'', Text (remote_reason c))])
                            (filter (\<lambda>c. purpose c = Some ''HS_CLIENT_INTRO'') cs))) \<and>
         map_of inst' ''rend_circs'' =
           Some (Snaps (map (\<lambda>c. [(''path'', Hops (path c)), (''state'', Text (hs_state c)),
                                   (''reason'', Text (reason c)),
                                   (''remote_reason'', Text (remote_reason c))])
                            (filter (\<lambda>c. purpose c = Some ''HS_CLIENT_REND'') cs))) \<and>
         log' = log @ Get_circuits #
                  concat (map (\<lambda>c. (if purpose c = Some ''HS_CLIENT_INTRO''
                                       then [Append_intro (circ_id c)] else []) @
                                     (if purpose c = Some ''HS_CLIENT_REND''
                                       then [Append_rend (circ_id c)] else []) @
                                     [Close_circuit (circ_id c)]) cs) \<and>
         closed_ids log' = closed_ids log @ map circ_id cs \<and>
         length (filter (\<lambda>c. purpose c = Some ''HS_CLIENT_INTRO'') cs) +
           length (filter (\<lambda>c. purpose c = Some ''HS_CLIENT_REND'') cs) \<le> length cs \<and>
         (length (filter (\<lambda>c. purpose c = Some ''HS_CLIENT_INTRO'') cs) = 1 \<and>
          length (filter (\<lambda>c. purpose c = Some ''HS_CLIENT_REND'') cs) = 1 \<longrightarrow>
            (\<exists>x y. map_of inst' ''intro_circs'' = Some (Snaps [x]) \<and>
                   map_of inst' ''rend_circs'' = Some (Snaps [y])))"
proof -
  note r = inspect_result [OF assms]
  have ic: "map_of inst' ''intro_circs'' = Some (Snaps (map intro_snapshot (filter is_intro cs)))"
    and rc: "map_of inst' ''rend_circs'' = Some (Snaps (map rend_snapshot (filter is_rend cs)))"
    using r by (simp_all add: update_conv')
  have l: "log' = log @ Get_circuits # concat (map circuit_events cs)"
    using r by simp
  have fi: "is_intro = (\<lambda>c. purpose c = Some ''HS_CLIENT_INTRO'')"
    and fr: "is_rend = (\<lambda>c. purpose c = Some ''HS_CLIENT_REND'')"
    by (simp_all add: is_intro_def is_rend_def fun_eq_iff)
  have si: "intro_snapshot = (\<lambda>c. [(''path'', Hops (path c)), (''reason'', Text (reason c)),
                                   (''remote_reason'', Text (remote_reason c))])"
    and sr: "rend_snapshot = (\<lambda>c. [(''path'', Hops (path c)), (''state'', Text (hs_state c)),
                                   (''reason'', Text (reason c)),
                                   (''remote_reason'', Text (remote_reason c))])"
    by (simp_all add: intro_snapshot_def rend_snapshot_def fun_eq_iff)
  have ce: "circuit_events = (\<lambda>c. (if purpose c = Some ''HS_CLIENT_INTRO''
                                       then [Append_intro (circ_id c)] else []) @
                                     (if purpose c = Some ''HS_CLIENT_REND''
                                       then [Append_rend (circ_id c)] else []) @
                                     [Close_circuit (circ_id c)])"
    by (simp add: circuit_events_def is_intro_def is_rend_def fun_eq_iff)
  have cl: "closed_ids log' = closed_ids log @ map circ_id cs"
    unfolding l by (simp add: closed_ids_append closed_ids_circuit_events)
  have le: "length (filter (\<lambda>c. purpose c = Some ''HS_CLIENT_INTRO'') cs) +
           length (filter (\<lambda>c. purpose c = Some ''HS_CLIENT_REND'') cs) \<le> length cs"
    using filters_le [of cs] by (simp add: fi fr)
  have one: "\<exists>x y. map_of inst' ''intro_circs'' = Some (Snaps [x]) \<and>
                   map_of inst' ''rend_circs'' = Some (Snaps [y])"
    if "length (filter (\<lambda>c. purpose c = Some ''HS_CLIENT_INTRO'') cs) = 1 \<and>
        length (filter (\<lambda>c. purpose c = Some ''HS_CLIENT_REND'') cs) = 1"
  proof -
    from that have "length (map intro_snapshot (filter is_intro cs)) = 1"
        "length (map rend_snapshot (filter is_rend cs)) = 1"
      by (simp_all add: fi fr)
    then obtain x y where "map intro_snapshot (filter is_intro cs) = [x]"
        "map rend_snapshot (filter is_rend cs) = [y]"
      by (auto simp: length_Suc_conv)
    with ic rc show ?thesis by simp
  qed
  from ic rc l cl le one show ?thesis
    unfolding fi fr si sr ce by blast
qed

theorem circuit_collection_snapshots_witness:
  "get_circuits (page_env '''') [circ_a, circ_b] = (Inr [circ_a, circ_b], [circ_a, circ_b]) \<and>
   inspect (page_env '''') (inst_of ''a.onion'') ([circ_a, circ_b], []) =
     (Proceed,
      inst_of ''a.onion'' @
        [(''intro_circs'',
          Snaps [[(''path'', Hops [(''A1'', Some ''guard''), (''B2'', None)]),
                  (''reason'', Text None), (''remote_reason'', Text None)]]),
         (''rend_circs'',
          Snaps [[(''path'', Hops [(''C3'', Some ''middle'')]),
                  (''state'', Text (Some ''HSCR_CONNECTING'')),
                  (''reason'', Text (Some ''TIMEOUT'')), (''remote_reason'', Text None)]])],
      ([], [Get_circuits, Append_intro ''7'', Close_circuit ''7'',
            Append_rend ''8'', Close_circuit ''8''])) \<and>
   length (filter (\<lambda>c. purpose c = Some ''HS_CLIENT_INTRO'') [circ_a, circ_b]) = 1 \<and>
   length (filter (\<lambda>c. purpose c = Some ''HS_CLIENT_REND'') [circ_a, circ_b]) = 1 \<and>
   closed_ids [Get_circuits, Append_intro ''7'', Close_circuit ''7'',
               Append_rend ''8'', Close_circuit ''8''] = closed_ids [] @ map circ_id [circ_a, circ_b]"
proof -
  have h1: "get_circuits (page_env '''') [circ_a, circ_b] = (Inr [circ_a, circ_b], [circ_a, circ_b])"
    by (simp add: page_env_def sim_env_def)
  have h2: "inspect (page_env '''') (inst_of ''a.onion'') ([circ_a, circ_b], []) =
     (Proceed,
      inst_of ''a.onion'' @
        [(''intro_circs'',
          Snaps [[(''path'', Hops [(''A1'', Some ''guard''), (''B2'', None)]),
                  (''reason'', Text None), (''remote_reason'', Text None)]]),
         (''rend_circs'',
          Snaps [[(''path'', Hops [(''C3'', Some ''middle'')]),
                  (''state'', Text (Some ''HSCR_CONNECTING'')),
                  (''reason'', Text (Some ''TIMEOUT'')), (''remote_reason'', Text None)]])],
      ([], [Get_circuits, Append_intro ''7'', Close_circuit ''7'',
            Append_rend ''8'', Close_circuit ''8'']))"
    by (simp add: inspect_def page_env_def sim_env_def circ_a_def circ_b_def inst_of_def
        is_intro_def is_rend_def circuit_events_def intro_snapshot_def rend_snapshot_def Let_def)
  have f: "length (filter (\<lambda>c. purpose c = Some ''HS_CLIENT_INTRO'') [circ_a, circ_b]) = 1"
      "length (filter (\<lambda>c. purpose c = Some ''HS_CLIENT_REND'') [circ_a, circ_b]) = 1"
    by (simp_all add: circ_a_def circ_b_def)
  from circuit_collection_snapshots [OF h1 h2] f h1 h2 show ?thesis
    by blast
qed

text \<open>
  Claim C5 as stated fails: one circuit of each purpose is live and closing the first one
  raises. The exception leaves the iteration; the record gets neither sequence, and the
  rendezvous circuit is neither recorded nor closed.
\<close>

theorem circuit_collection_can_abort:
  "purpose circ_a = Some ''HS_CLIENT_INTRO'' \<and> purpose circ_b = Some ''HS_CLIENT_REND'' \<and>
   get_circuits (brittle_env ''7'') [circ_a, circ_b] = (Inr [circ_a, circ_b], [circ_a, circ_b]) \<and>
   check_instance (brittle_env ''7'') 30 (inst_of ''a.onion'') ([circ_a, circ_b], []) =
     (Some (OtherError ''close failed''),
      inst_of ''a.onion'' @ [(''version'', Str ''1.0'')],
      ([circ_a, circ_b],
       [Open_url ''http://a.onion'' 30, Get_circuits, Append_intro ''7'', Close_circuit ''7''])) \<and>
   map_of (inst_of ''a.onion'' @ [(''version'', Str ''1.0'')]) ''intro_circs'' = None \<and>
   map_of (inst_of ''a.onion'' @ [(''version'', Str ''1.0'')]) ''rend_circs'' = None \<and>
   Close_circuit (circ_id circ_b) \<notin>
     set [Open_url ''http://a.onion'' 30, Get_circuits, Append_intro ''7'', Close_circuit ''7'']"
  by (simp add: run_brittle_intro) (simp add: brittle_env_def circ_a_def circ_b_def inst_of_def)

text \<open>
  Claim C9, as amended. When circuit collection completes for a record (no call of the
  controller raises), \<^verbatim>\<open>close_circuit\<close> has been called on every circuit that
  \<^verbatim>\<open>get_circuits\<close> returned, once per entry and in enumeration order, whatever its
  purpose. The record's \<^verbatim>\<open>intro_circs\<close> and \<^verbatim>\<open>rend_circs\<close> have one entry per circuit of
  the respective purpose and none for the others: the circuits of other purposes are closed
  and recorded in neither sequence, and when no enumerated circuit has either purpose both
  sequences are empty.
\<close>

theorem close_every_circuit:
  assumes "get_circuits env w = (Inr cs, w1)"
    and "inspect env inst (w, log) = (Proceed, inst', (w', log'))"
  shows "closed_ids log' = closed_ids log @ map circ_id cs \<and>
         (\<exists>ic rc.
            map_of inst' ''intro_circs'' = Some (Snaps ic) \<and>
            map_of inst' ''rend_circs'' = Some (Snaps rc) \<and>
            length ic = length (filter (\<lambda>c. purpose c = Some ''HS_CLIENT_INTRO'') cs) \<and>
            length rc = length (filter (\<lambda>c. purpose c = Some ''HS_CLIENT_REND'') cs) \<and>
            length ic + length rc +
              length (filter (\<lambda>c. purpose c \<noteq> Some ''HS_CLIENT_INTRO'' \<and>
                                   purpose c \<noteq> Some ''HS_CLIENT_REND'') cs) = length cs) \<and>
         ((\<forall>c\<in>set cs. purpose c \<noteq> Some ''HS_CLIENT_INTRO'' \<and> purpose c \<noteq> Some ''HS_CLIENT_REND'')
            \<longrightarrow> map_of inst' ''intro_circs'' = Some (Snaps []) \<and>
                map_of inst' ''rend_circs'' = Some (Snaps []))"
proof -
  note r = inspect_result [OF assms]
  have fi: "is_intro = (\<lambda>c. purpose c = Some ''HS_CLIENT_INTRO'')"
    and fr: "is_rend = (\<lambda>c. purpose c = Some ''HS_CLIENT_REND'')"
    by (simp_all add: is_intro_def is_rend_def fun_eq_iff)
  let ?ic = "map intro_snapshot (filter (\<lambda>c. purpose c = Some ''HS_CLIENT_INTRO'') cs)"
  let ?rc = "map rend_snapshot (filter (\<lambda>c. purpose c = Some ''HS_CLIENT_REND'') cs)"
  have ic: "map_of inst' ''intro_circs'' = Some (Snaps ?ic)"
    and rc: "map_of inst' ''rend_circs'' = Some (Snaps ?rc)"
    using r by (simp_all add: update_conv' fi fr)
  have l: "log' = log @ Get_circuits # concat (map circuit_events cs)"
    using r by simp
  have a: "closed_ids log' = closed_ids log @ map circ_id cs"
    unfolding l by (simp add: closed_ids_append closed_ids_circuit_events)
  have n: "length ?ic + length ?rc +
              length (filter (\<lambda>c. purpose c \<noteq> Some ''HS_CLIENT_INTRO'' \<and>
                                   purpose c \<noteq> Some ''HS_CLIENT_REND'') cs) = length cs"
    using purpose_counts [of cs] by simp
  have b: "\<exists>ic rc.
            map_of inst' ''intro_circs'' = Some (Snaps ic) \<and>
            map_of inst' ''rend_circs'' = Some (Snaps rc) \<and>
            length ic = length (filter (\<lambda>c. purpose c = Some ''HS_CLIENT_INTRO'') cs) \<and>
            length rc = length (filter (\<lambda>c. purpose c = Some ''HS_CLIENT_REND'') cs) \<and>
            length ic + length rc +
              length (filter (\<lambda>c. purpose c \<noteq> Some ''HS_CLIENT_INTRO'' \<and>
                                   purpose c \<noteq> Some ''HS_CLIENT_REND'') cs) = length cs"
    using ic rc n by (intro exI [of _ ?ic] exI [of _ ?rc]) simp
  have c: "map_of inst' ''intro_circs'' = Some (Snaps []) \<and>
           map_of inst' ''rend_circs'' = Some (Snaps [])"
    if "\<forall>c\<in>set cs. purpose c \<noteq> Some ''HS_CLIENT_INTRO'' \<and> purpose c \<noteq> Some ''HS_CLIENT_REND''"
  proof -
    from that have "filter (\<lambda>c. purpose c = Some ''HS_CLIENT_INTRO'') cs = []"
        "filter (\<lambda>c. purpose c = Some ''HS_CLIENT_REND'') cs = []"
      by (simp_all add: filter_empty_conv)
    with ic rc show ?thesis by simp
  qed
  from a b c show ?thesis by blast
qed

theorem close_every_circuit_witness:
  "get_circuits (page_env '''') [circ_c] = (Inr [circ_c], [circ_c]) \<and>
   inspect (page_env '''') (inst_of ''a.onion'') ([circ_c], []) =
     (Proceed,
      inst_of ''a.onion'' @ [(''intro_circs'', Snaps []), (''rend_circs'', Snaps [])],
      ([], [Get_circuits, Close_circuit ''9''])) \<and>
   purpose circ_c \<noteq> Some ''HS_CLIENT_INTRO'' \<and> purpose circ_c \<noteq> Some ''HS_CLIENT_REND'' \<and>
   closed_ids [Get_circuits, Close_circuit ''9''] = closed_ids [] @ map circ_id [circ_c] \<and>
   circ_id circ_c = ''9'' \<and>
   map_of (inst_of ''a.onion'' @ [(''intro_circs'', Snaps []), (''rend_circs'', Snaps [])])
     ''intro_circs'' = Some (Snaps []) \<and>
   map_of (inst_of ''a.onion'' @ [(''intro_circs'', Snaps []), (''rend_circs'', Snaps [])])
     ''rend_circs'' = Some (Snaps [])"
proof -
  have h1: "get_circuits (page_env '''') [circ_c] = (Inr [circ_c], [circ_c])"
    by (simp add: page_env_def sim_env_def)
  have h2: "inspect (page_env '''') (inst_of ''a.onion'') ([circ_c], []) =
     (Proceed,
      inst_of ''a.onion'' @ [(''intro_circs'', Snaps []), (''rend_circs'', Snaps [])],
      ([], [Get_circuits, Close_circuit ''9'']))"
    by (simp add: inspect_def page_env_def sim_env_def circ_c_def inst_of_def
        is_intro_def is_rend_def circuit_events_def Let_def)
  have p: "purpose circ_c \<noteq> Some ''HS_CLIENT_INTRO'' \<and> purpose circ_c \<noteq> Some ''HS_CLIENT_REND''"
      "circ_id circ_c = ''9''"
    by (simp_all add: circ_c_def)
  then have q: "\<forall>c\<in>set [circ_c]. purpose c \<noteq> Some ''HS_CLIENT_INTRO'' \<and>
      purpose c \<noteq> Some ''HS_CLIENT_REND''"
    by simp
  from close_every_circuit [OF h1 h2] q p h1 h2 show ?thesis
    by blast
qed

text \<open>
  Claim C9 as stated fails: the enumeration returns a circuit of purpose \<^verbatim>\<open>GENERAL\<close> and
  then an introduction circuit, and closing the first raises. The exception leaves the
  iteration and \<^verbatim>\<open>close_circuit\<close> is never called on the second circuit.
\<close>

theorem later_circuits_left_open:
  "get_circuits (brittle_env ''9'') [circ_c, circ_a] = (Inr [circ_c, circ_a], [circ_c, circ_a]) \<and>
   check_instance (brittle_env ''9'') 30 (inst_of ''a.onion'') ([circ_c, circ_a], []) =
     (Some (OtherError ''close failed''),
      inst_of ''a.onion'' @ [(''version'', Str ''1.0'')],
      ([circ_c, circ_a],
       [Open_url ''http://a.onion'' 30, Get_circuits, Close_circuit ''9''])) \<and>
   closed_ids [Open_url ''http://a.onion'' 30, Get_circuits, Close_circuit ''9''] = [''9''] \<and>
   circ_id circ_a = ''7''"
  by (simp add: run_brittle_general) (simp add: brittle_env_def circ_a_def)

subsection \<open>The frame of the whole run\<close>

text \<open>
  Claim C8. However a run of \<^verbatim>\<open>check_instances\<close> ends, the list has the length it had,
  and the record at each position differs from the input record at that position at most
  in the four result keys: the other entries are the same, in the same order. In
  particular \<^verbatim>\<open>organization\<close>, \<^verbatim>\<open>landing_page\<close> and \<^verbatim>\<open>ths_address\<close> are unchanged.
\<close>

theorem check_instances_frame_effect:
  assumes "check_instances env t insts s = (r, out, s')"
  shows "length out = length insts \<and>
         (\<forall>n<length insts.
            AList.restrict (- result_keys) (out ! n) = AList.restrict (- result_keys) (insts ! n) \<and>
            map_of (out ! n) ''organization'' = map_of (insts ! n) ''organization'' \<and>
            map_of (out ! n) ''landing_page'' = map_of (insts ! n) ''landing_page'' \<and>
            map_of (out ! n) ''ths_address'' = map_of (insts ! n) ''ths_address'')"
proof -
  have k: "''organization'' \<in> - result_keys" "''landing_page'' \<in> - result_keys"
      "''ths_address'' \<in> - result_keys"
    by (simp_all add: result_keys_def)
  from check_instances_frame [OF assms] k show ?thesis
    by (auto dest: restrict_lookup)
qed

theorem check_instances_frame_effect_witness:
  "check_instances two_page_env 30 [inst_of ''a.onion''] ([], []) =
     (None,
      [inst_of ''a.onion'' @ [(''version'', Str ''1.0''), (''intro_circs'', Snaps []),
                              (''rend_circs'', Snaps [])]],
      ([], [Open_url ''http://a.onion'' 30, Get_circuits])) \<and>
   (0::nat) < length [inst_of ''a.onion''] \<and>
   map_of ([inst_of ''a.onion'' @ [(''version'', Str ''1.0''), (''intro_circs'', Snaps []),
                              (''rend_circs'', Snaps [])]] ! 0) ''organization''
     = map_of ([inst_of ''a.onion''] ! 0) ''organization'' \<and>
   map_of ([inst_of ''a.onion''] ! 0) ''organization'' = Some (Str ''Org'')"
proof -
  have h: "(0::nat) < length [inst_of ''a.onion'']" by simp
  have o: "map_of ([inst_of ''a.onion''] ! 0) ''organization'' = Some (Str ''Org'')"
    by (simp add: inst_of_def)
  from check_instances_frame_effect [OF run_first_page] h
  have "map_of ([inst_of ''a.onion'' @ [(''version'', Str ''1.0''), (''intro_circs'', Snaps []),
                              (''rend_circs'', Snaps [])]] ! 0) ''organization''
     = map_of ([inst_of ''a.onion''] ! 0) ''organization''"
    by blast
  with run_first_page h o show ?thesis by blast
qed

end
